theory Spec2Isabelle
  imports Main "HOL-Library.Word"
begin

unbundle bit_operations_syntax

section \<open>Data model\<close>

text \<open>
  The program is \<^verbatim>\<open>src/api_usage/compression.cpp\<close>. A \<^verbatim>\<open>std::string\<close> is a sequence of
  bytes and is modelled as \<^typ>\<open>string\<close> (a list of 8-bit characters). The integer
  types follow the LP64 data model: \<^verbatim>\<open>int\<close> and zlib's \<^verbatim>\<open>uInt\<close> are 32 bits wide and
  are modelled as \<^typ>\<open>32 word\<close>; \<^verbatim>\<open>size_t\<close> and zlib's \<^verbatim>\<open>uLong\<close> are 64 bits wide,
  cannot overflow on data that fits the address space, and are modelled as \<^typ>\<open>nat\<close>.
  An \<^verbatim>\<open>unsigned char\<close> is a \<^typ>\<open>nat\<close> below 256; the arithmetic of lines 27-30 and
  43-45 is carried out after promotion to \<^verbatim>\<open>int\<close>, and the store back into an
  \<^verbatim>\<open>unsigned char\<close> is the \<open>mod 256\<close> that is written out. The array indices
  \<^verbatim>\<open>i\<close> and \<^verbatim>\<open>j\<close> stay between 0 and 4 and are of type \<^typ>\<open>nat\<close>.
\<close>

text \<open>\<^verbatim>\<open>reinterpret_cast<const unsigned char *>\<close> and \<^verbatim>\<open>static_cast<unsigned char>\<close>:
  the value of a byte.\<close>

definition uchar :: "char \<Rightarrow> nat" where
  "uchar c = of_char c"

section \<open>Base64 encoding (lines 8-54)\<close>

definition base64_chars :: string where
  "base64_chars = ''ABCDEFGHIJKLMNOPQRSTUVWXYZabcdefghijklmnopqrstuvwxyz0123456789+/''"

text \<open>Lines 27-30: the four 6-bit slices of a group of three bytes.\<close>

definition split_group :: "nat list \<Rightarrow> nat list \<Rightarrow> nat list" where
  "split_group char_array_3 char_array_4 = char_array_4
     [0 := drop_bit 2 (char_array_3 ! 0 AND 0xfc) mod 256,
      1 := (push_bit 4 (char_array_3 ! 0 AND 0x03) + drop_bit 4 (char_array_3 ! 1 AND 0xf0)) mod 256,
      2 := (push_bit 2 (char_array_3 ! 1 AND 0x0f) + drop_bit 6 (char_array_3 ! 2 AND 0xc0)) mod 256,
      3 := (char_array_3 ! 2 AND 0x3f) mod 256]"

text \<open>Lines 43-45: the same slices for the final partial group; \<^verbatim>\<open>char_array_4[3]\<close>
  is left as it was.\<close>

definition split_partial :: "nat list \<Rightarrow> nat list \<Rightarrow> nat list" where
  "split_partial char_array_3 char_array_4 = char_array_4
     [0 := drop_bit 2 (char_array_3 ! 0 AND 0xfc) mod 256,
      1 := (push_bit 4 (char_array_3 ! 0 AND 0x03) + drop_bit 4 (char_array_3 ! 1 AND 0xf0)) mod 256,
      2 := (push_bit 2 (char_array_3 ! 1 AND 0x0f) + drop_bit 6 (char_array_3 ! 2 AND 0xc0)) mod 256]"

text \<open>\<^verbatim>\<open>*(bytes_to_encode++)\<close>: the byte under the pointer. The buffer of
  \<^verbatim>\<open>c_str()\<close> ends with a zero byte, which is what a read at the end of the string
  finds.\<close>

fun deref :: "string \<Rightarrow> nat" where
  "deref [] = 0"
| "deref (c # cs) = uchar c"

text \<open>
  Lines 22-36, the loop \<^verbatim>\<open>while (in_len--)\<close>. The counter is the 32-bit
  \<^verbatim>\<open>int in_len\<close>; the loop tests it against zero and decrements it, and the
  decrement of the word wraps around. A counter that starts non-negative (a
  length below \<open>2 ^ 31\<close>) never wraps; the claims about the encoding are stated
  for such lengths. \<open>bytes_to_encode\<close> is the rest of the input from the pointer
  on. The result is the state the loop leaves:
  \<open>(i, char_array_3, char_array_4, ret)\<close>.
\<close>

function base64_while ::
  "32 word \<Rightarrow> string \<Rightarrow> nat \<Rightarrow> nat list \<Rightarrow> nat list \<Rightarrow> string
     \<Rightarrow> nat \<times> nat list \<times> nat list \<times> string" where
  "base64_while in_len bytes_to_encode i char_array_3 char_array_4 ret =
     (if in_len = 0 then (i, char_array_3, char_array_4, ret)
      else
        let char_array_3 = char_array_3[i := deref bytes_to_encode];
            i = i + 1
        in if i = 3 then
             let char_array_4 = split_group char_array_3 char_array_4;
                 ret = ret @ map (\<lambda>i. base64_chars ! (char_array_4 ! i)) [0..<4]
             in base64_while (in_len - 1) (tl bytes_to_encode) 0 char_array_3 char_array_4 ret
           else base64_while (in_len - 1) (tl bytes_to_encode) i char_array_3 char_array_4 ret)"
  by pat_completeness auto
termination
  by (relation "measure (\<lambda>(in_len, _). unat in_len)") (auto simp: unat_minus_one unat_gt_0)

declare base64_while.simps [simp del]

text \<open>
  Lines 38-52, the final partial group, entered with \<open>i \<noteq> 0\<close>. Lines 40-41
  clear the unused bytes of the group, lines 47-48 emit \<open>i + 1\<close> characters, and
  the loop of lines 50-51 appends one padding character for each value of \<open>i\<close>
  below 3, that is \<open>3 - i\<close> of them.
\<close>

definition base64_partial :: "nat \<Rightarrow> nat list \<Rightarrow> nat list \<Rightarrow> string \<Rightarrow> string" where
  "base64_partial i char_array_3 char_array_4 ret =
     (let char_array_3 = fold (\<lambda>j a. a[j := 0]) [i..<3] char_array_3;
          char_array_4 = split_partial char_array_3 char_array_4;
          ret = ret @ map (\<lambda>j. base64_chars ! (char_array_4 ! j)) [0..<i + 1]
      in ret @ replicate (3 - i) (CHR ''=''))"

text \<open>
  Lines 13-54. \<^verbatim>\<open>int in_len = input.length()\<close> narrows the 64-bit length to 32
  bits. The two arrays are uninitialised in the source; every element is written
  before it is read, so the model starts them at zero.
\<close>

definition base64_encode :: "string \<Rightarrow> string" where
  "base64_encode input =
     (let in_len = (of_nat (length input) :: 32 word);
          (i, char_array_3, char_array_4, ret) =
             base64_while in_len input 0 [0, 0, 0] [0, 0, 0, 0] []
      in if i \<noteq> 0 then base64_partial i char_array_3 char_array_4 ret else ret)"

section \<open>Percent-encoding (lines 97-115)\<close>

text \<open>
  Modelled from the spec: \<^verbatim>\<open>isalnum\<close> is a function of the C library, not of this
  repository. The program never calls \<^verbatim>\<open>setlocale\<close>, so the "C" locale is in
  force, in which the alphanumeric characters are the ASCII letters and digits
  (the spec: "alphanumeric (ASCII letters/digits)"). No byte above 127 is one
  of them, whether \<^verbatim>\<open>char\<close> is signed or not.
\<close>

definition isalnum :: "char \<Rightarrow> bool" where
  "isalnum c =
     ((48 \<le> uchar c \<and> uchar c \<le> 57) \<or> (65 \<le> uchar c \<and> uchar c \<le> 90)
       \<or> (97 \<le> uchar c \<and> uchar c \<le> 122))"

text \<open>Lines 103-112, the body of the loop over the characters of \<open>str\<close>.\<close>

definition url_encode_char :: "string \<Rightarrow> char \<Rightarrow> string" where
  "url_encode_char encoded c =
     (if isalnum c \<or> c = CHR ''-'' \<or> c = CHR ''_'' \<or> c = CHR ''.'' \<or> c = CHR ''~''
      then encoded @ [c]
      else encoded @ [CHR ''%'']
             @ [''0123456789ABCDEF'' ! drop_bit 4 (uchar c)]
             @ [''0123456789ABCDEF'' ! (uchar c AND 15)])"

definition url_encode :: "string \<Rightarrow> string" where
  "url_encode str = foldl url_encode_char [] str"


section \<open>Compression (lines 56-95)\<close>

text \<open>\<^verbatim>\<open>std::runtime_error\<close> with its message, the only exception the program throws.\<close>

datatype error = runtime_error string

text \<open>
  zlib is a library the program links against; its header and code are not part
  of the repository. The constants below have the values of \<^verbatim>\<open>zlib.h\<close>.
\<close>

definition Z_OK :: int where "Z_OK = 0"
definition Z_STREAM_END :: int where "Z_STREAM_END = 1"
definition Z_FINISH :: int where "Z_FINISH = 4"
definition Z_BEST_COMPRESSION :: int where "Z_BEST_COMPRESSION = 9"
definition Z_DEFLATED :: int where "Z_DEFLATED = 8"
definition Z_DEFAULT_STRATEGY :: int where "Z_DEFAULT_STRATEGY = 0"
definition MAX_WBITS :: int where "MAX_WBITS = 15"

text \<open>
  The fields of \<^verbatim>\<open>z_stream\<close> that the program reads or writes, and the internal
  state of the engine, of a type \<open>'s\<close> that the program never looks into.
  \<open>next_in\<close> is the input from the pointer on, \<open>next_out\<close> the offset of the
  output pointer from the start of \<^verbatim>\<open>outbuffer\<close>.
\<close>

record 's z_stream =
  next_in :: string
  avail_in :: "32 word"
  next_out :: nat
  avail_out :: "32 word"
  total_out :: nat
  state :: "'s option"

text \<open>
  The three functions of zlib that the program calls are parameters of the
  model. \<open>deflate\<close> returns its return code, the stream as the call leaves it, and
  the contents of \<^verbatim>\<open>outbuffer\<close> (the memory that \<open>next_out\<close> pointed into) after the
  call, as a function of the offset.
\<close>

record 's zlib =
  deflateInit2 :: "'s z_stream \<Rightarrow> int \<Rightarrow> int \<Rightarrow> int \<Rightarrow> int \<Rightarrow> int \<Rightarrow> int \<times> 's z_stream"
  deflate :: "'s z_stream \<Rightarrow> int \<Rightarrow> int \<times> 's z_stream \<times> (nat \<Rightarrow> char)"
  deflateEnd :: "'s z_stream \<Rightarrow> int \<times> 's z_stream"

text \<open>Lines 59-62: the zeroed stream, handed to \<^verbatim>\<open>deflateInit2\<close>.\<close>

definition deflate_init :: "'s zlib \<Rightarrow> int \<times> 's z_stream" where
  "deflate_init Z =
     deflateInit2 Z
       \<lparr>next_in = [], avail_in = 0, next_out = 0, avail_out = 0, total_out = 0, state = None\<rparr>
       Z_BEST_COMPRESSION Z_DEFLATED (MAX_WBITS OR 16) 8 Z_DEFAULT_STRATEGY"

text \<open>
  Lines 74-85, the loop \<^verbatim>\<open>do ... while (ret == Z_OK)\<close>. Nothing in the program
  bounds the number of rounds, so the loop is a partial function: \<open>None\<close> is a
  loop that never ends. The result is \<open>(ret, zs, compressed)\<close> as the loop
  leaves them.
\<close>

partial_function (option) deflate_loop ::
  "'s zlib \<Rightarrow> 's z_stream \<Rightarrow> string \<Rightarrow> (int \<times> 's z_stream \<times> string) option" where
  "deflate_loop Z zs compressed =
     (case deflate Z (zs\<lparr>next_out := 0, avail_out := 32768\<rparr>) Z_FINISH of
        (ret, zs, outbuffer) \<Rightarrow>
          let compressed =
                (if length compressed < total_out zs
                 then compressed @ map outbuffer [0..<total_out zs - length compressed]
                 else compressed)
          in if ret = Z_OK then deflate_loop Z zs compressed
             else Some (ret, zs, compressed))"

text \<open>Lines 67-85: the input is attached to the initialised stream
  (\<^verbatim>\<open>avail_in\<close> is a 32-bit \<^verbatim>\<open>uInt\<close>) and the loop is run.\<close>

definition deflate_all ::
  "'s zlib \<Rightarrow> 's z_stream \<Rightarrow> string \<Rightarrow> (int \<times> 's z_stream \<times> string) option" where
  "deflate_all Z zs data =
     deflate_loop Z (zs\<lparr>next_in := data, avail_in := of_nat (length data)\<rparr>) []"

text \<open>
  Lines 57-95. The result is \<open>None\<close> when the call never returns, \<open>Some (Inl e)\<close>
  when it throws \<open>e\<close>, and \<open>Some (Inr compressed)\<close> when it returns.
\<close>

definition compress_data :: "'s zlib \<Rightarrow> string \<Rightarrow> (error + string) option" where
  "compress_data Z data =
     (case deflate_init Z of
        (rc, zs) \<Rightarrow>
          if rc \<noteq> Z_OK then Some (Inl (runtime_error ''deflateInit failed''))
          else
            case deflate_all Z zs data of
              None \<Rightarrow> None
            | Some (ret, zs, compressed) \<Rightarrow>
                (case deflateEnd Z zs of
                   (_, zs) \<Rightarrow>
                     if ret \<noteq> Z_STREAM_END
                     then Some (Inl (runtime_error ''compression failed''))
                     else Some (Inr compressed)))"

section \<open>The shareable URL (lines 117-130)\<close>

text \<open>\<open>CHR 0x22\<close> is the double quote.\<close>

definition create_shareable_url :: "'s zlib \<Rightarrow> string \<Rightarrow> string \<Rightarrow> (error + string) option" where
  "create_shareable_url Z expression sizes =
     (let json_expr = [CHR 0x22] @ expression @ [CHR 0x22];
          json_sizes = ''['' @ sizes @ '']''
      in case compress_data Z json_expr of
           None \<Rightarrow> None
         | Some (Inl e) \<Rightarrow> Some (Inl e)
         | Some (Inr compressed_expr) \<Rightarrow>
             (case compress_data Z json_sizes of
                None \<Rightarrow> None
              | Some (Inl e) \<Rightarrow> Some (Inl e)
              | Some (Inr compressed_sizes) \<Rightarrow>
                  let base64_expr = url_encode (base64_encode compressed_expr);
                      base64_sizes = url_encode (base64_encode compressed_sizes)
                  in Some (Inr (''https://seriousseal.github.io/tensor_expressions_webapp/?e=''
                                 @ base64_expr @ ''&s='' @ base64_sizes))))"


section \<open>Reference definitions\<close>

subsection \<open>Base64 by groups\<close>

text \<open>
  The encoding as the spec words it, on the values of the bytes: a group of
  three bytes gives four characters of the alphabet, taken from the 6-bit
  slices of the 24 bits; a final group of one or two bytes is padded with zero
  bits, gives two or three characters, and is filled up to four with \<open>=\<close>.
\<close>

definition quad :: "nat \<Rightarrow> nat \<Rightarrow> nat \<Rightarrow> string" where
  "quad a b c =
     [base64_chars ! (a div 4), base64_chars ! (a mod 4 * 16 + b div 16),
      base64_chars ! (b mod 16 * 4 + c div 64), base64_chars ! (c mod 64)]"

fun base64_spec :: "nat list \<Rightarrow> string" where
  "base64_spec (a # b # c # rest) = quad a b c @ base64_spec rest"
| "base64_spec [a, b] = take 3 (quad a b 0) @ ''=''"
| "base64_spec [a] = take 2 (quad a 0 0) @ ''==''"
| "base64_spec [] = []"

text \<open>The characters of the complete groups, and the bytes left over after them.\<close>

fun full_groups :: "nat list \<Rightarrow> string" where
  "full_groups (a # b # c # rest) = quad a b c @ full_groups rest"
| "full_groups rest = []"

fun leftover :: "nat list \<Rightarrow> nat list" where
  "leftover (a # b # c # rest) = leftover rest"
| "leftover rest = rest"

subsection \<open>A standard Base64 decoder\<close>

text \<open>
  The decoder of RFC 4648, section 4, for padded input: the input is read four
  characters at a time, each character stands for its position in the alphabet,
  and padding may only end the last group. \<open>None\<close> is a rejected input.
\<close>

fun index_of :: "'a list \<Rightarrow> 'a \<Rightarrow> nat option" where
  "index_of [] c = None"
| "index_of (x # xs) c = (if x = c then Some 0 else map_option Suc (index_of xs c))"

definition sextet :: "char \<Rightarrow> nat option" where
  "sextet c = index_of ''ABCDEFGHIJKLMNOPQRSTUVWXYZabcdefghijklmnopqrstuvwxyz0123456789+/'' c"

fun base64_decode :: "string \<Rightarrow> string option" where
  "base64_decode (c0 # c1 # c2 # c3 # rest) =
     (if rest = [] \<and> c2 = CHR ''='' \<and> c3 = CHR ''='' then
        (case (sextet c0, sextet c1) of
           (Some v0, Some v1) \<Rightarrow> Some [char_of (v0 * 4 + v1 div 16)]
         | _ \<Rightarrow> None)
      else if rest = [] \<and> c3 = CHR ''='' then
        (case (sextet c0, sextet c1, sextet c2) of
           (Some v0, Some v1, Some v2) \<Rightarrow>
             Some [char_of (v0 * 4 + v1 div 16), char_of (v1 mod 16 * 16 + v2 div 4)]
         | _ \<Rightarrow> None)
      else
        (case (sextet c0, sextet c1, sextet c2, sextet c3) of
           (Some v0, Some v1, Some v2, Some v3) \<Rightarrow>
             map_option
               (\<lambda>bytes. [char_of (v0 * 4 + v1 div 16), char_of (v1 mod 16 * 16 + v2 div 4),
                          char_of (v2 mod 4 * 64 + v3)] @ bytes)
               (base64_decode rest)
         | _ \<Rightarrow> None))"
| "base64_decode [] = Some []"
| "base64_decode _ = None"

subsection \<open>Percent-encoding of one character\<close>

text \<open>The characters the spec lets through: ASCII letters, ASCII digits and
  \<open>- _ . ~\<close>.\<close>

definition unreserved :: "char \<Rightarrow> bool" where
  "unreserved c \<longleftrightarrow>
     c \<in> set ''ABCDEFGHIJKLMNOPQRSTUVWXYZabcdefghijklmnopqrstuvwxyz0123456789-_.~''"

text \<open>\<open>%\<close> and the value of the byte as two upper-case hexadecimal digits.\<close>

definition percent :: "char \<Rightarrow> string" where
  "percent c =
     [CHR ''%'', ''0123456789ABCDEF'' ! (uchar c div 16), ''0123456789ABCDEF'' ! (uchar c mod 16)]"

subsection \<open>The calls of the deflate loop\<close>

text \<open>
  The results of the calls of \<^verbatim>\<open>deflate\<close> that the loop of lines 74-85 makes,
  in order, and the bytes that one call has emitted: those between the start of
  \<^verbatim>\<open>outbuffer\<close> and the place where the call leaves the output pointer.
\<close>

partial_function (option) deflate_calls ::
  "'s zlib \<Rightarrow> 's z_stream \<Rightarrow> (int \<times> 's z_stream \<times> (nat \<Rightarrow> char)) list option" where
  "deflate_calls Z zs =
     (case deflate Z (zs\<lparr>next_out := 0, avail_out := 32768\<rparr>) Z_FINISH of
        (ret, zs', outbuffer) \<Rightarrow>
          if ret = Z_OK
          then Option.bind (deflate_calls Z zs') (\<lambda>calls. Some ((ret, zs', outbuffer) # calls))
          else Some [(ret, zs', outbuffer)])"

definition emitted :: "int \<times> 's z_stream \<times> (nat \<Rightarrow> char) \<Rightarrow> string" where
  "emitted call =
     (case call of (ret, zs, outbuffer) \<Rightarrow> map outbuffer [0..<32768 - unat (avail_out zs)])"

subsection \<open>What the program relies on in zlib\<close>

text \<open>
  From the documentation in \<^verbatim>\<open>zlib.h\<close>: a successful \<^verbatim>\<open>deflateInit2\<close> starts the
  count \<^verbatim>\<open>total_out\<close> at zero; \<^verbatim>\<open>deflate\<close> lowers \<^verbatim>\<open>avail_out\<close> by the number of
  bytes it writes and raises \<^verbatim>\<open>total_out\<close> by the same number; it lowers
  \<^verbatim>\<open>avail_in\<close> by the number of bytes it consumes and moves \<^verbatim>\<open>next_in\<close> past
  them; and it returns \<^verbatim>\<open>Z_STREAM_END\<close> only when \<^verbatim>\<open>avail_in\<close> is zero.
\<close>

definition zlib_accounting :: "'s zlib \<Rightarrow> bool" where
  "zlib_accounting Z \<longleftrightarrow>
     (fst (deflate_init Z) = Z_OK \<longrightarrow> total_out (snd (deflate_init Z)) = 0) \<and>
     (\<forall>zs flush.
        case deflate Z zs flush of
          (ret, zs', outbuffer) \<Rightarrow>
            unat (avail_out zs') \<le> unat (avail_out zs) \<and>
            total_out zs' = total_out zs + (unat (avail_out zs) - unat (avail_out zs')) \<and>
            unat (avail_in zs') \<le> unat (avail_in zs) \<and>
            next_in zs' = drop (unat (avail_in zs) - unat (avail_in zs')) (next_in zs) \<and>
            (ret = Z_STREAM_END \<longrightarrow> avail_in zs' = 0))"

text \<open>
  The loop ends if the engine makes progress: some measure of the work that is
  left goes down with every call that returns \<^verbatim>\<open>Z_OK\<close>.
\<close>

definition deflate_progress :: "'s zlib \<Rightarrow> ('s z_stream \<Rightarrow> nat) \<Rightarrow> bool" where
  "deflate_progress Z m \<longleftrightarrow>
     (\<forall>zs. case deflate Z (zs\<lparr>next_out := 0, avail_out := 32768\<rparr>) Z_FINISH of
             (ret, zs', outbuffer) \<Rightarrow> ret = Z_OK \<longrightarrow> m zs' < m zs)"

subsection \<open>An engine to run the model on\<close>

text \<open>
  An engine that obeys the interface and stores its input as it is: each call
  copies as many bytes from the input to the output as both have room for, and
  the stream ends when the input is used up.
\<close>

definition copy_deflate :: "unit z_stream \<Rightarrow> int \<Rightarrow> int \<times> unit z_stream \<times> (nat \<Rightarrow> char)" where
  "copy_deflate zs flush =
     (let n = min (unat (avail_in zs)) (unat (avail_out zs))
      in (if n = unat (avail_in zs) then Z_STREAM_END else Z_OK,
          zs\<lparr>next_in := drop n (next_in zs), avail_in := avail_in zs - of_nat n,
             next_out := next_out zs + n, avail_out := avail_out zs - of_nat n,
             total_out := total_out zs + n\<rparr>,
          (\<lambda>k. if next_out zs \<le> k \<and> k < next_out zs + n
                then next_in zs ! (k - next_out zs) else CHR 0x00)))"

definition copy_zlib :: "unit zlib" where
  "copy_zlib =
     \<lparr>deflateInit2 = (\<lambda>zs level method windowBits memLevel strategy.
                        (Z_OK, zs\<lparr>total_out := 0, state := Some ()\<rparr>)),
      deflate = copy_deflate,
      deflateEnd = (\<lambda>zs. (Z_OK, zs\<lparr>state := None\<rparr>))\<rparr>"


section \<open>The encoder computes the encoding by groups\<close>

subsection \<open>The bit slices as arithmetic\<close>

lemma and_3: "(a::nat) AND 3 = a mod 4"
  using take_bit_eq_mask [of 2 a] by (simp add: take_bit_eq_mod mask_eq_exp_minus_1)

lemma and_15: "(a::nat) AND 15 = a mod 16"
  using take_bit_eq_mask [of 4 a] by (simp add: take_bit_eq_mod mask_eq_exp_minus_1)

lemma and_63: "(a::nat) AND 63 = a mod 64"
  using take_bit_eq_mask [of 6 a] by (simp add: take_bit_eq_mod mask_eq_exp_minus_1)

lemma slice0: "a < 256 \<Longrightarrow> drop_bit 2 ((a::nat) AND 0xfc) mod 256 = a div 4"
proof -
  assume a: "a < 256"
  have "drop_bit 2 (a AND 0xfc) = drop_bit 2 a AND 63" by simp
  also have "\<dots> = a div 4" using a by (simp add: and_63 drop_bit_eq_div)
  finally show ?thesis using a by simp
qed

lemma slice_hi4: "b < 256 \<Longrightarrow> drop_bit 4 ((b::nat) AND 0xf0) = b div 16"
proof -
  assume a: "b < 256"
  have "drop_bit 4 (b AND 0xf0) = drop_bit 4 b AND 15" by simp
  also have "\<dots> = b div 16" using a by (simp add: and_15 drop_bit_eq_div)
  finally show ?thesis .
qed

lemma slice_hi2: "b < 256 \<Longrightarrow> drop_bit 6 ((b::nat) AND 0xc0) = b div 64"
proof -
  assume a: "b < 256"
  have "drop_bit 6 (b AND 0xc0) = drop_bit 6 b AND 3" by simp
  also have "\<dots> = b div 64" using a by (simp add: and_3 drop_bit_eq_div)
  finally show ?thesis .
qed

lemma slice1:
  "a < 256 \<Longrightarrow> b < 256 \<Longrightarrow>
     (push_bit 4 ((a::nat) AND 0x03) + drop_bit 4 (b AND 0xf0)) mod 256 = a mod 4 * 16 + b div 16"
proof -
  assume b: "b < 256"
  have "push_bit 4 (a AND 0x03) = a mod 4 * 16"
    unfolding and_3 by (simp add: push_bit_eq_mult)
  moreover have "a mod 4 * 16 + b div 16 < 256" using b by simp
  ultimately show ?thesis using b by (simp only: slice_hi4 mod_less)
qed

lemma slice2:
  "b < 256 \<Longrightarrow> c < 256 \<Longrightarrow>
     (push_bit 2 ((b::nat) AND 0x0f) + drop_bit 6 (c AND 0xc0)) mod 256 = b mod 16 * 4 + c div 64"
proof -
  assume c: "c < 256"
  have "push_bit 2 (b AND 0x0f) = b mod 16 * 4"
    unfolding and_15 by (simp add: push_bit_eq_mult)
  moreover have "b mod 16 * 4 + c div 64 < 256" using c by simp
  ultimately show ?thesis using c by (simp only: slice_hi2 mod_less)
qed

lemma slice3: "((c::nat) AND 0x3f) mod 256 = c mod 64"
  by (simp add: and_63)

lemma upd4:
  "length ca4 = 4 \<Longrightarrow> ca4[0 := s0, 1 := s1, 2 := s2, 3 := s3] = [s0, s1, s2, (s3::nat)]"
  by (cases ca4; cases "tl ca4"; cases "tl (tl ca4)"; cases "tl (tl (tl ca4))") auto

lemma upd3:
  "length ca4 = 4 \<Longrightarrow> ca4[0 := s0, 1 := s1, 2 := s2] = [s0, s1, s2, (ca4 ! 3 ::nat)]"
  by (cases ca4; cases "tl ca4"; cases "tl (tl ca4)"; cases "tl (tl (tl ca4))") auto

lemma nth3: "[a, b, c] ! 0 = a" "[a, b, c] ! 1 = b" "[a, b, c] ! 2 = c"
  by simp_all

lemma split_group_eq:
  "a < 256 \<Longrightarrow> b < 256 \<Longrightarrow> c < 256 \<Longrightarrow> length ca4 = 4 \<Longrightarrow>
   split_group [a, b, c] ca4 = [a div 4, a mod 4 * 16 + b div 16, b mod 16 * 4 + c div 64, c mod 64]"
  unfolding split_group_def by (simp only: upd4 nth3 slice0 slice1 slice2 slice3)

lemma split_partial_eq:
  "a < 256 \<Longrightarrow> b < 256 \<Longrightarrow> c < 256 \<Longrightarrow> length ca4 = 4 \<Longrightarrow>
   split_partial [a, b, c] ca4 = [a div 4, a mod 4 * 16 + b div 16, b mod 16 * 4 + c div 64, ca4 ! 3]"
  unfolding split_partial_def by (simp only: upd3 nth3 slice0 slice1 slice2)

lemma upt4: "[0..<4] = [0, 1, 2, 3]"
  by code_simp

lemma map4: "map f [0..<4] = [f 0, f 1, f 2, f 3]"
  unfolding upt4 by simp

lemma emit_group:
  "a < 256 \<Longrightarrow> b < 256 \<Longrightarrow> c < 256 \<Longrightarrow> length ca4 = 4 \<Longrightarrow>
   map (\<lambda>i. base64_chars ! (split_group [a, b, c] ca4 ! i)) [0..<4] = quad a b c"
  by (simp only: split_group_eq map4 quad_def) simp

lemma while_spec:
  "unat in_len = n \<Longrightarrow> n \<le> length bytes \<Longrightarrow> i < 3 \<Longrightarrow> length ca3 = 3 \<Longrightarrow> length ca4 = 4 \<Longrightarrow>
   \<forall>k<i. ca3 ! k < 256 \<Longrightarrow>
   \<exists>ca3' ca4'.
     base64_while in_len bytes i ca3 ca4 ret =
       (length (leftover (take i ca3 @ map uchar (take n bytes))), ca3', ca4',
        ret @ full_groups (take i ca3 @ map uchar (take n bytes)))
     \<and> length ca3' = 3 \<and> length ca4' = 4
     \<and> take (length (leftover (take i ca3 @ map uchar (take n bytes)))) ca3'
         = leftover (take i ca3 @ map uchar (take n bytes))"
proof (induction n arbitrary: in_len bytes i ca3 ca4 ret)
  case 0
  then have z: "in_len = 0" by (simp add: unat_eq_0)
  obtain p q r where ca3: "ca3 = [p, q, r]"
    using \<open>length ca3 = 3\<close> by (cases ca3; cases "tl ca3"; cases "tl (tl ca3)") auto
  from \<open>i < 3\<close> consider "i = 0" | "i = 1" | "i = 2" by linarith
  then show ?case
    by cases (use z ca3 0 in \<open>simp_all add: base64_while.simps\<close>)
next
  case (Suc n)
  then have nz: "in_len \<noteq> 0" by auto
  have dec: "unat (in_len - 1) = n" using Suc.prems(1) nz by (simp add: unat_minus_one)
  obtain c cs where bytes: "bytes = c # cs" using Suc.prems(2) by (cases bytes) auto
  then have len: "n \<le> length cs" using Suc.prems(2) by simp
  obtain p q r where ca3: "ca3 = [p, q, r]"
    using \<open>length ca3 = 3\<close> by (cases ca3; cases "tl ca3"; cases "tl (tl ca3)") auto
  have u: "uchar c < 256" by (simp add: uchar_def)
  from \<open>i < 3\<close> consider "i = 0" | "i = 1" | "i = 2" by linarith
  then show ?case
  proof cases
    case 1
    have "\<forall>k<1. [uchar c, q, r] ! k < 256" using u by simp
    from Suc.IH [OF dec len _ _ \<open>length ca4 = 4\<close> this, of ret]
    show ?thesis using 1 nz ca3 bytes by (subst base64_while.simps) (simp add: Let_def)
  next
    case 2
    have "\<forall>k<2. [p, uchar c, r] ! k < 256" using u Suc.prems(6) 2 ca3 by (auto simp: less_Suc_eq numeral_2_eq_2)
    from Suc.IH [OF dec len _ _ \<open>length ca4 = 4\<close> this, of ret]
    show ?thesis using 2 nz ca3 bytes by (subst base64_while.simps) (simp add: Let_def numeral_2_eq_2)
  next
    case 3
    have pq: "p < 256" "q < 256" using Suc.prems(6) 3 ca3
      by (auto simp: numeral_2_eq_2 less_Suc_eq)
    let ?ca4 = "split_group [p, q, uchar c] ca4"
    have l4: "length ?ca4 = 4" using \<open>length ca4 = 4\<close> by (simp add: split_group_def)
    have "\<forall>k<0. [p, q, uchar c] ! k < 256" by simp
    from Suc.IH [OF dec len _ _ l4 this, of "ret @ quad p q (uchar c)"]
    show ?thesis using 3 nz ca3 bytes emit_group [OF pq u \<open>length ca4 = 4\<close>]
      by (subst base64_while.simps) (simp add: Let_def)
  qed
qed

lemma base64_spec_split: "base64_spec xs = full_groups xs @ base64_spec (leftover xs)"
  by (induction xs rule: base64_spec.induct) simp_all

lemma length_leftover: "length (leftover xs) = length xs mod 3"
  by (induction xs rule: leftover.induct) simp_all

lemma leftover_less: "length (leftover xs) < 3"
  by (simp add: length_leftover)

lemma set_leftover: "set (leftover xs) \<subseteq> set xs"
  by (induction xs rule: leftover.induct) auto

lemma partial1:
  assumes "a < 256" "length ca4 = 4"
  shows "base64_partial 1 [a, q, r] ca4 ret = ret @ take 2 (quad a 0 0) @ ''==''"
proof -
  have 1: "fold (\<lambda>j a. a[j := 0]) [1..<3] [a, q, r] = [a, 0, 0::nat]"
    by (simp add: upt_rec)
  have 2: "split_partial [a, 0, 0] ca4 = [a div 4, a mod 4 * 16 + 0 div 16, 0 mod 16 * 4 + 0 div 64, ca4 ! 3]"
    using assms by (intro split_partial_eq) simp_all
  have 3: "[0..<1 + 1] = [0, 1::nat]" by (simp add: upt_rec)
  have 4: "replicate (3 - 1) (CHR ''='') = ''==''" by (simp add: numeral_2_eq_2)
  show ?thesis
    unfolding base64_partial_def Let_def 1 2 3 4 by (simp add: quad_def)
qed

lemma partial2:
  assumes "a < 256" "b < 256" "length ca4 = 4"
  shows "base64_partial 2 [a, b, r] ca4 ret = ret @ take 3 (quad a b 0) @ ''=''"
proof -
  have 1: "fold (\<lambda>j a. a[j := 0]) [2..<3] [a, b, r] = [a, b, 0::nat]"
    by (simp add: upt_rec)
  have 2: "split_partial [a, b, 0] ca4 = [a div 4, a mod 4 * 16 + b div 16, b mod 16 * 4 + 0 div 64, ca4 ! 3]"
    using assms by (intro split_partial_eq) simp_all
  have 3: "[0..<2 + 1] = [0, 1, 2::nat]" by (simp add: upt_rec numeral_2_eq_2)
  have 4: "replicate (3 - 2) (CHR ''='') = ''=''" by simp
  show ?thesis
    unfolding base64_partial_def Let_def 1 2 3 4 by (simp add: quad_def)
qed

lemma base64_encode_spec:
  "base64_encode input = base64_spec (map uchar (take (length input mod 2 ^ 32) input))"
proof -
  define n where "n = length input mod 2 ^ 32"
  define xs where "xs = map uchar (take n input)"
  have n: "unat (of_nat (length input) :: 32 word) = n" by (simp add: unat_of_nat n_def)
  have "n \<le> length input" by (simp add: n_def)
  then have "\<exists>ca3' ca4'. base64_while (of_nat (length input)) input 0 [0, 0, 0] [0, 0, 0, 0] []
       = (length (leftover xs), ca3', ca4', full_groups xs)
       \<and> length ca3' = 3 \<and> length ca4' = 4 \<and> take (length (leftover xs)) ca3' = leftover xs"
    using while_spec [OF n, where bytes = input and i = 0 and ?ca3.0 = "[0, 0, 0]"
        and ?ca4.0 = "[0, 0, 0, 0]" and ret = "[]"]
    by (simp add: xs_def)
  then obtain ca3 ca4 where w:
    "base64_while (of_nat (length input)) input 0 [0, 0, 0] [0, 0, 0, 0] []
       = (length (leftover xs), ca3, ca4, full_groups xs)"
    and l3: "length ca3 = 3" and l4: "length ca4 = 4"
    and t: "take (length (leftover xs)) ca3 = leftover xs"
    by auto
  obtain p q r where ca3: "ca3 = [p, q, r]"
    using l3 by (cases ca3; cases "tl ca3"; cases "tl (tl ca3)") auto
  have bound: "\<forall>x \<in> set (leftover xs). x < 256"
    using set_leftover [of xs] by (auto simp: uchar_def xs_def)
  from leftover_less [of xs] consider "leftover xs = []" | a where "leftover xs = [a]"
    | a b where "leftover xs = [a, b]"
    by (cases "leftover xs"; cases "tl (leftover xs)"; cases "tl (tl (leftover xs))") auto
  then have "base64_encode input = base64_spec xs"
  proof cases
    case 1
    then show ?thesis
      by (simp add: base64_encode_def w base64_spec_split [of xs])
  next
    case 2
    then have a: "a < 256" and p: "p = a" using bound t ca3 by auto
    have li: "length (leftover xs) = 1" and sp: "base64_spec (leftover xs) = take 2 (quad a 0 0) @ ''==''"
      by (simp_all add: 2)
    show ?thesis
      using partial1 [OF a l4, of q r "full_groups xs"]
      by (simp add: base64_encode_def w base64_spec_split [of xs] li sp ca3 p)
  next
    case 3
    then have a: "a < 256" "b < 256" and p: "p = a" "q = b" using bound t ca3 by auto
    have li: "length (leftover xs) = 2" and sp: "base64_spec (leftover xs) = take 3 (quad a b 0) @ ''=''"
      by (simp_all add: 3)
    show ?thesis
      using partial2 [OF a l4, of r "full_groups xs"]
      by (simp add: base64_encode_def w base64_spec_split [of xs] li sp ca3 p)
  qed
  then show ?thesis by (simp only: xs_def n_def)
qed

lemma base64_encode_eq:
  "length input < 2 ^ 32 \<Longrightarrow> base64_encode input = base64_spec (map uchar input)"
  by (simp add: base64_encode_spec)



subsection \<open>Properties of the encoding by groups\<close>

lemma length_quad: "length (quad a b c) = 4"
  by (simp add: quad_def)

lemma length_base64_spec: "length (base64_spec xs) = 4 * ((length xs + 2) div 3)"
proof (induction xs rule: base64_spec.induct)
  case (1 a b c rest)
  have "(length (a # b # c # rest) + 2) div 3 = Suc ((length rest + 2) div 3)" by simp
  with 1 show ?case by (simp only: base64_spec.simps length_append length_quad) simp
qed (simp_all add: length_quad)

lemma base64_spec_append:
  "length xs mod 3 = 0 \<Longrightarrow> base64_spec (xs @ ys) = base64_spec xs @ base64_spec ys"
  by (induction xs rule: base64_spec.induct) simp_all

lemma index_of_nth:
  "distinct xs \<Longrightarrow> k < length xs \<Longrightarrow> index_of xs (xs ! k) = Some k"
proof (induction xs arbitrary: k)
  case Nil
  then show ?case by simp
next
  case (Cons x xs)
  show ?case
  proof (cases k)
    case 0
    then show ?thesis by simp
  next
    case (Suc j)
    with Cons.prems have "xs ! j \<in> set xs" "x \<notin> set xs" "j < length xs" by auto
    then have "x \<noteq> xs ! j" by auto
    with Suc Cons show ?thesis by simp
  qed
qed

lemma distinct_base64_chars: "distinct base64_chars"
  by (simp add: base64_chars_def)

lemma length_base64_chars: "length base64_chars = 64"
  by (simp add: base64_chars_def)

lemma pad_not_in_alphabet: "CHR ''='' \<notin> set base64_chars"
  by (simp add: base64_chars_def)

lemma sextet_alphabet: "sextet c = index_of base64_chars c"
  by (simp only: sextet_def base64_chars_def)

lemma sextet_nth: "k < 64 \<Longrightarrow> sextet (base64_chars ! k) = Some k"
  by (simp only: sextet_alphabet index_of_nth distinct_base64_chars length_base64_chars)

lemma nth_alphabet: "k < 64 \<Longrightarrow> base64_chars ! k \<in> set base64_chars"
  by (simp only: nth_mem length_base64_chars)

lemma nth_not_pad: "k < 64 \<Longrightarrow> base64_chars ! k \<noteq> CHR ''=''"
  using pad_not_in_alphabet nth_alphabet [of k] by metis



subsection \<open>The decoder inverts the encoding by groups\<close>

lemma sextet1_less: "b < 256 \<Longrightarrow> a mod 4 * 16 + b div 16 < (64::nat)"
proof -
  assume "b < 256"
  then have "b div 16 < 16" by simp
  moreover have "a mod 4 < 4" by simp
  ultimately show ?thesis by linarith
qed

lemma sextet2_less: "c < 256 \<Longrightarrow> b mod 16 * 4 + c div 64 < (64::nat)"
proof -
  assume "c < 256"
  then have "c div 64 < 4" by simp
  moreover have "b mod 16 < 16" by simp
  ultimately show ?thesis by linarith
qed

lemma byte0_eq: "b < 256 \<Longrightarrow> a div 4 * 4 + (a mod 4 * 16 + b div 16) div 16 = (a::nat)"
proof -
  assume "b < 256"
  then have "b div 16 < 16" by simp
  then have "(a mod 4 * 16 + b div 16) div 16 = a mod 4" by simp
  then show ?thesis by simp
qed

lemma byte1_eq: "b < 256 \<Longrightarrow> c < 256 \<Longrightarrow>
  (a mod 4 * 16 + b div 16) mod 16 * 16 + (b mod 16 * 4 + c div 64) div 4 = (b::nat)"
proof -
  assume "b < 256" "c < 256"
  then have "b div 16 < 16" "c div 64 < 4" by simp_all
  then have "(a mod 4 * 16 + b div 16) mod 16 = b div 16"
    "(b mod 16 * 4 + c div 64) div 4 = b mod 16" by simp_all
  then show ?thesis by simp
qed

lemma byte2_eq: "c < 256 \<Longrightarrow> (b mod 16 * 4 + c div 64) mod 4 * 64 + c mod 64 = (c::nat)"
proof -
  assume "c < 256"
  then have "c div 64 < 4" by simp
  then have "(b mod 16 * 4 + c div 64) mod 4 = c div 64" by simp
  then show ?thesis by simp
qed


lemma decode_quad:
  assumes "a < 256" "b < 256" "c < 256"
  shows "base64_decode (quad a b c @ rest) =
           map_option (\<lambda>bytes. [char_of a, char_of b, char_of c] @ bytes) (base64_decode rest)"
proof -
  define v0 where "v0 = a div 4"
  define v1 where "v1 = a mod 4 * 16 + b div 16"
  define v2 where "v2 = b mod 16 * 4 + c div 64"
  define v3 where "v3 = c mod 64"
  have b: "v0 < 64" "v1 < 64" "v2 < 64" "v3 < 64"
    using assms sextet1_less [of b a] sextet2_less [of c b] by (simp_all add: v0_def v1_def v2_def v3_def)
  have s: "sextet (base64_chars ! v0) = Some v0" "sextet (base64_chars ! v1) = Some v1"
    "sextet (base64_chars ! v2) = Some v2" "sextet (base64_chars ! v3) = Some v3"
    using b by (simp_all only: sextet_nth)
  have np: "base64_chars ! v3 \<noteq> CHR ''=''" using b(4) by (rule nth_not_pad)
  have r: "v0 * 4 + v1 div 16 = a" "v1 mod 16 * 16 + v2 div 4 = b" "v2 mod 4 * 64 + v3 = c"
    using assms byte0_eq [of b a] byte1_eq [of b c a] byte2_eq [of c b]
    by (simp_all only: v0_def v1_def v2_def v3_def)
  have q: "quad a b c = [base64_chars ! v0, base64_chars ! v1, base64_chars ! v2, base64_chars ! v3]"
    by (simp only: quad_def v0_def v1_def v2_def v3_def)
  show ?thesis
    unfolding q by (cases "base64_decode rest") (simp_all add: s np r)
qed

lemma decode_partial1:
  assumes "a < 256"
  shows "base64_decode (take 2 (quad a 0 0) @ ''=='') = Some [char_of a]"
proof -
  define v0 where "v0 = a div 4"
  define v1 where "v1 = a mod 4 * 16 + 0 div 16"
  have b: "v0 < 64" "v1 < 64"
    using assms sextet1_less [of 0 a] by (simp_all add: v0_def v1_def)
  have s: "sextet (base64_chars ! v0) = Some v0" "sextet (base64_chars ! v1) = Some v1"
    using b by (simp_all only: sextet_nth)
  have r: "v0 * 4 + v1 div 16 = a"
    using byte0_eq [of 0 a] by (simp add: v0_def v1_def)
  have q: "take 2 (quad a 0 0) = [base64_chars ! v0, base64_chars ! v1]"
    by (simp add: quad_def v0_def v1_def)
  show ?thesis
    unfolding q by (simp add: s r)
qed

lemma decode_partial2:
  assumes "a < 256" "b < 256"
  shows "base64_decode (take 3 (quad a b 0) @ ''='') = Some [char_of a, char_of b]"
proof -
  define v0 where "v0 = a div 4"
  define v1 where "v1 = a mod 4 * 16 + b div 16"
  define v2 where "v2 = b mod 16 * 4 + 0 div 64"
  have b: "v0 < 64" "v1 < 64" "v2 < 64"
    using assms sextet1_less [of b a] sextet2_less [of 0 b] by (simp_all add: v0_def v1_def v2_def)
  have s: "sextet (base64_chars ! v0) = Some v0" "sextet (base64_chars ! v1) = Some v1"
    "sextet (base64_chars ! v2) = Some v2"
    using b by (simp_all only: sextet_nth)
  have np: "base64_chars ! v2 \<noteq> CHR ''=''" using b(3) by (rule nth_not_pad)
  have r: "v0 * 4 + v1 div 16 = a" "v1 mod 16 * 16 + v2 div 4 = b"
    using assms byte0_eq [of b a] byte1_eq [of b 0 a]
    by (simp_all add: v0_def v1_def v2_def)
  have q: "take 3 (quad a b 0) = [base64_chars ! v0, base64_chars ! v1, base64_chars ! v2]"
    by (simp add: quad_def v0_def v1_def v2_def)
  show ?thesis
    unfolding q by (simp add: s np r)
qed

lemma decode_spec:
  "\<forall>x \<in> set xs. x < 256 \<Longrightarrow> base64_decode (base64_spec xs) = Some (map char_of xs)"
proof (induction xs rule: base64_spec.induct)
  case (1 a b c rest)
  then show ?case by (simp add: decode_quad del: base64_decode.simps)
next
  case (2 a b)
  then show ?case by (simp add: decode_partial2 del: base64_decode.simps)
next
  case (3 a)
  then show ?case by (simp add: decode_partial1 del: base64_decode.simps)
next
  case 4
  then show ?case by simp
qed

lemma char_of_uchar: "map char_of (map uchar input) = input"
  by (simp add: uchar_def comp_def)

lemma uchar_less: "\<forall>x \<in> set (map uchar input). x < 256"
  by (simp add: uchar_def)

section \<open>The percent-encoder, character by character\<close>

lemma url_encode_char_acc: "url_encode_char encoded c = encoded @ url_encode_char [] c"
  by (simp add: url_encode_char_def)

lemma foldl_url_encode_char:
  "foldl url_encode_char encoded str = encoded @ concat (map (url_encode_char []) str)"
proof (induction str arbitrary: encoded)
  case Nil
  then show ?case by simp
next
  case (Cons c str)
  have "foldl url_encode_char encoded (c # str) = foldl url_encode_char (url_encode_char encoded c) str"
    by simp
  also have "\<dots> = url_encode_char encoded c @ concat (map (url_encode_char []) str)"
    by (rule Cons.IH)
  also have "\<dots> = (encoded @ url_encode_char [] c) @ concat (map (url_encode_char []) str)"
    by (simp only: url_encode_char_acc [of encoded c])
  finally show ?case by simp
qed

lemma url_encode_concat: "url_encode str = concat (map (url_encode_char []) str)"
  by (simp add: url_encode_def foldl_url_encode_char)

lemma all_bytes: "list_all (\<lambda>n. P (char_of n)) [0..<256] \<Longrightarrow> P c"
proof -
  assume a: "list_all (\<lambda>n. P (char_of n)) [0..<256]"
  have "(of_char c :: nat) \<in> set [0..<256]" by simp
  with a have "P (char_of (of_char c :: nat))" unfolding list_all_iff by blast
  then show ?thesis by simp
qed

lemma mem_by_value: "(of_char c :: nat) \<in> of_char ` set cs \<Longrightarrow> c \<in> set cs"
  by (simp add: inj_image_mem_iff [OF inj_of_char])

lemma digit_chars:
  "48 \<le> (of_char c :: nat) \<Longrightarrow> (of_char c :: nat) \<le> 57 \<Longrightarrow> c \<in> set ''0123456789''"
  by (rule mem_by_value) (simp, arith)

lemma upper_chars:
  "65 \<le> (of_char c :: nat) \<Longrightarrow> (of_char c :: nat) \<le> 90 \<Longrightarrow> c \<in> set ''ABCDEFGHIJKLMNOPQRSTUVWXYZ''"
  by (rule mem_by_value) (simp, arith)

lemma lower_chars:
  "97 \<le> (of_char c :: nat) \<Longrightarrow> (of_char c :: nat) \<le> 122 \<Longrightarrow> c \<in> set ''abcdefghijklmnopqrstuvwxyz''"
  by (rule mem_by_value) (simp, arith)

lemma alnum_values:
  "c \<in> set ''ABCDEFGHIJKLMNOPQRSTUVWXYZabcdefghijklmnopqrstuvwxyz0123456789'' \<Longrightarrow> isalnum c"
  unfolding isalnum_def uchar_def by auto

lemma unreserved_split:
  "unreserved c \<longleftrightarrow>
     c \<in> set ''ABCDEFGHIJKLMNOPQRSTUVWXYZ'' \<or> c \<in> set ''abcdefghijklmnopqrstuvwxyz''
     \<or> c \<in> set ''0123456789'' \<or> c = CHR ''-'' \<or> c = CHR ''_'' \<or> c = CHR ''.'' \<or> c = CHR ''~''"
proof -
  have "''ABCDEFGHIJKLMNOPQRSTUVWXYZabcdefghijklmnopqrstuvwxyz0123456789-_.~''
          = ''ABCDEFGHIJKLMNOPQRSTUVWXYZ'' @ ''abcdefghijklmnopqrstuvwxyz'' @ ''0123456789'' @ ''-_.~''"
    by simp
  then show ?thesis
    unfolding unreserved_def by (simp only: set_append Un_iff) auto
qed

lemma alnum_split:
  "c \<in> set ''ABCDEFGHIJKLMNOPQRSTUVWXYZabcdefghijklmnopqrstuvwxyz0123456789'' \<longleftrightarrow>
     c \<in> set ''ABCDEFGHIJKLMNOPQRSTUVWXYZ'' \<or> c \<in> set ''abcdefghijklmnopqrstuvwxyz''
     \<or> c \<in> set ''0123456789''"
proof -
  have "''ABCDEFGHIJKLMNOPQRSTUVWXYZabcdefghijklmnopqrstuvwxyz0123456789''
          = ''ABCDEFGHIJKLMNOPQRSTUVWXYZ'' @ ''abcdefghijklmnopqrstuvwxyz'' @ ''0123456789''"
    by simp
  then show ?thesis by (simp only: set_append Un_iff)
qed

lemma isalnum_iff:
  "isalnum c \<longleftrightarrow>
     c \<in> set ''ABCDEFGHIJKLMNOPQRSTUVWXYZ'' \<or> c \<in> set ''abcdefghijklmnopqrstuvwxyz''
     \<or> c \<in> set ''0123456789''"
proof
  assume "isalnum c"
  then show "c \<in> set ''ABCDEFGHIJKLMNOPQRSTUVWXYZ'' \<or> c \<in> set ''abcdefghijklmnopqrstuvwxyz''
     \<or> c \<in> set ''0123456789''"
    unfolding isalnum_def uchar_def using digit_chars upper_chars lower_chars by blast
next
  assume "c \<in> set ''ABCDEFGHIJKLMNOPQRSTUVWXYZ'' \<or> c \<in> set ''abcdefghijklmnopqrstuvwxyz''
     \<or> c \<in> set ''0123456789''"
  then show "isalnum c" using alnum_values alnum_split by blast
qed

lemma unreserved_iff:
  "(isalnum c \<or> c = CHR ''-'' \<or> c = CHR ''_'' \<or> c = CHR ''.'' \<or> c = CHR ''~'') = unreserved c"
  unfolding unreserved_split isalnum_iff by blast

lemma hex_digits: "drop_bit 4 (n::nat) = n div 16" "n AND 15 = n mod 16"
  by (simp_all add: drop_bit_eq_div and_15)

lemma url_encode_char_eq:
  "url_encode_char [] c = (if unreserved c then [c] else percent c)"
  unfolding url_encode_char_def unreserved_iff hex_digits percent_def by simp

section \<open>Claims about the Base64 encoder\<close>

text \<open>
  C9, as stated: for every input of length \<open>n\<close> the output of \<open>base64_encode\<close> has
  length \<open>4 * \<lceil>n / 3\<rceil>\<close>. This fails on an input of \<open>2 ^ 32\<close> bytes: line 19 stores
  the length in an \<^verbatim>\<open>int\<close>, the counter is zero, and the output is empty.
\<close>

theorem base64_length_counterexample:
  "length (base64_encode (replicate (2 ^ 32) (CHR ''A'')))
     \<noteq> 4 * ((length (replicate (2 ^ 32) (CHR ''A'')) + 2) div 3)"
  by (simp add: base64_encode_spec)

text \<open>
  C9, amended: for every input whose length \<open>n\<close> fits the \<^verbatim>\<open>int\<close> counter
  (\<open>n < 2 ^ 31\<close>), the output has length \<open>4 * \<lceil>n / 3\<rceil>\<close>, written
  \<open>4 * ((n + 2) div 3)\<close>, which is a multiple of 4.
\<close>

theorem base64_length:
  "length input < 2 ^ 31 \<Longrightarrow>
     length (base64_encode input) = 4 * ((length input + 2) div 3)
     \<and> 4 dvd length (base64_encode input)"
  by (simp add: base64_encode_eq length_base64_spec)

theorem base64_length_witness:
  "length ''Many'' < (2::nat) ^ 31
     \<and> length (base64_encode ''Many'') = 4 * ((length ''Many'' + 2) div 3)
     \<and> 4 dvd length (base64_encode ''Many'')"
  using base64_length [of "''Many''"] by simp

text \<open>
  C4, as stated: for every byte sequence \<open>b\<close>, a standard decoder gives \<open>b\<close> back
  from \<open>base64_encode b\<close>. This fails on \<open>2 ^ 32\<close> bytes, which are encoded as the
  empty string, as the empty input is.
\<close>

theorem base64_roundtrip_counterexample:
  "base64_decode (base64_encode (replicate (2 ^ 32) (CHR ''B'')))
     \<noteq> Some (replicate (2 ^ 32) (CHR ''B''))"
  by (simp add: base64_encode_spec)

text \<open>
  C4, amended: for every byte sequence \<open>b\<close> whose length fits the \<^verbatim>\<open>int\<close> counter
  (\<open>length b < 2 ^ 31\<close>), the decoder gives exactly \<open>b\<close> back from
  \<open>base64_encode b\<close>; hence no other sequence of such a length has the same
  encoding.
\<close>

theorem base64_roundtrip:
  assumes "length b < 2 ^ 31"
  shows "base64_decode (base64_encode b) = Some b
         \<and> (\<forall>b'. length b' < 2 ^ 31 \<and> base64_encode b' = base64_encode b \<longrightarrow> b' = b)"
proof -
  have dec: "base64_decode (base64_encode x) = Some x" if "length x < 2 ^ 31" for x
  proof -
    from that have "base64_encode x = base64_spec (map uchar x)"
      by (simp add: base64_encode_eq)
    then have "base64_decode (base64_encode x) = Some (map char_of (map uchar x))"
      using decode_spec [OF uchar_less] by (simp only:)
    then show ?thesis by (simp only: char_of_uchar)
  qed
  show ?thesis
  proof (intro conjI allI impI)
    show "base64_decode (base64_encode b) = Some b" using assms by (rule dec)
  next
    fix b'
    assume h: "length b' < 2 ^ 31 \<and> base64_encode b' = base64_encode b"
    then have "Some b' = base64_decode (base64_encode b)" using dec [of b'] by simp
    then show "b' = b" using dec [OF assms] by simp
  qed
qed

theorem base64_roundtrip_witness:
  "length ''Ma'' < (2::nat) ^ 31 \<and> base64_decode (base64_encode ''Ma'') = Some ''Ma''"
  using base64_roundtrip [of "''Ma''"] by simp


text \<open>
  C2, as stated: for every input whose length is not a multiple of 3 the final
  partial group is emitted as data characters and padding. This fails on an
  input of \<open>2 ^ 32\<close> bytes, which leaves one byte over and for which nothing is
  emitted at all.
\<close>

theorem base64_padding_counterexample:
  "length (replicate (2 ^ 32) (CHR ''M'')) mod 3 = 1
     \<and> base64_encode (replicate (2 ^ 32) (CHR ''M'')) = []"
  by (simp add: base64_encode_spec)

text \<open>
  C2, amended: for every input whose length fits the \<^verbatim>\<open>int\<close> counter (fewer
  than \<open>2 ^ 31\<close> bytes) and is not a multiple of 3. Such an input is a sequence
  \<open>xs\<close> of complete groups followed by one byte \<open>a\<close> or by two bytes \<open>a\<close>, \<open>b\<close>,
  and the bound is on the length of the whole input in either case. One byte
  left over gives exactly two data characters and two \<open>=\<close>, two bytes left over
  give exactly three data characters and one \<open>=\<close>; the data characters are
  characters of the alphabet, which does not hold \<open>=\<close>. The three examples of
  the spec are as it says.
\<close>

theorem base64_padding:
  assumes "length xs mod 3 = 0"
  shows "(length (xs @ [a]) < 2 ^ 31 \<longrightarrow>
           base64_encode (xs @ [a]) =
             base64_encode xs
               @ [base64_chars ! (uchar a div 4), base64_chars ! (uchar a mod 4 * 16)] @ ''=='')
         \<and> (length (xs @ [a, b]) < 2 ^ 31 \<longrightarrow>
           base64_encode (xs @ [a, b]) =
             base64_encode xs
               @ [base64_chars ! (uchar a div 4),
                  base64_chars ! (uchar a mod 4 * 16 + uchar b div 16),
                  base64_chars ! (uchar b mod 16 * 4)] @ ''='')
         \<and> uchar a div 4 < length base64_chars
         \<and> uchar a mod 4 * 16 + uchar b div 16 < length base64_chars
         \<and> uchar a mod 4 * 16 < length base64_chars
         \<and> uchar b mod 16 * 4 < length base64_chars
         \<and> CHR ''='' \<notin> set base64_chars
         \<and> base64_encode ''M'' = ''TQ==''
         \<and> base64_encode ''Ma'' = ''TWE=''
         \<and> base64_encode ''Man'' = ''TWFu''"
proof -
  have m: "length (map uchar xs) mod 3 = 0" using assms by simp
  have 1: "base64_encode (xs @ [a]) = base64_encode xs @ base64_spec [uchar a]"
    if "length (xs @ [a]) < 2 ^ 31"
  proof -
    from that have l: "length xs < 2 ^ 32" "length (xs @ [a]) < 2 ^ 32" by simp_all
    show ?thesis
      using base64_spec_append [OF m, of "[uchar a]"]
      by (simp only: base64_encode_eq [OF l(1)] base64_encode_eq [OF l(2)] map_append list.map)
  qed
  have 2: "base64_encode (xs @ [a, b]) = base64_encode xs @ base64_spec [uchar a, uchar b]"
    if "length (xs @ [a, b]) < 2 ^ 31"
  proof -
    from that have l: "length xs < 2 ^ 32" "length (xs @ [a, b]) < 2 ^ 32" by simp_all
    show ?thesis
      using base64_spec_append [OF m, of "[uchar a, uchar b]"]
      by (simp only: base64_encode_eq [OF l(1)] base64_encode_eq [OF l(2)] map_append list.map)
  qed
  have ua: "uchar a < 256" and ub: "uchar b < 256" by (simp_all add: uchar_def)
  have 3: "uchar a div 4 < length base64_chars"
    using ua by (simp add: length_base64_chars)
  have 4: "uchar a mod 4 * 16 + uchar b div 16 < length base64_chars"
    using sextet1_less [OF ub] by (simp add: length_base64_chars)
  have 5: "uchar b mod 16 * 4 < length base64_chars"
    using sextet2_less [of 0 "uchar b"] by (simp add: length_base64_chars)
  have 6: "base64_encode ''M'' = ''TQ==''" "base64_encode ''Ma'' = ''TWE=''"
    "base64_encode ''Man'' = ''TWFu''"
    by code_simp+
  have 7: "uchar a mod 4 * 16 < length base64_chars"
    using sextet1_less [of 0 "uchar a"] by (simp add: length_base64_chars)
  have 8: "base64_spec [uchar a] =
             [base64_chars ! (uchar a div 4), base64_chars ! (uchar a mod 4 * 16)] @ ''==''"
    "base64_spec [uchar a, uchar b] =
       [base64_chars ! (uchar a div 4), base64_chars ! (uchar a mod 4 * 16 + uchar b div 16),
        base64_chars ! (uchar b mod 16 * 4)] @ ''=''"
    by (simp_all add: quad_def)
  show ?thesis
    using 1 2 3 4 5 6 7 pad_not_in_alphabet unfolding 8 by blast
qed

theorem base64_padding_witness:
  "length ''Man'' mod 3 = 0 \<and> length (''Man'' @ ''y'') < (2::nat) ^ 31
     \<and> length (''Man'' @ ''y '') < (2::nat) ^ 31
     \<and> base64_encode ''Many'' = ''TWFueQ=='' \<and> base64_encode ''Many '' = ''TWFueSA=''"
proof -
  have e: "base64_encode ''Man'' = ''TWFu''" by code_simp
  have h: "length ''Man'' mod 3 = 0" by simp
  show ?thesis
    using base64_padding [OF h, of "CHR ''y''" "CHR '' ''"]
    by (simp add: e uchar_def base64_chars_def)
qed


section \<open>Claims about the percent-encoder\<close>

lemma url_encode_char_fun:
  "url_encode_char [] = (\<lambda>c. if unreserved c then [c] else percent c)"
  by (rule ext) (rule url_encode_char_eq)

lemma url_encode_Cons:
  "url_encode (c # str) = (if unreserved c then [c] else percent c) @ url_encode str"
  by (simp add: url_encode_concat url_encode_char_fun)

lemma url_encode_Nil: "url_encode [] = []"
  by (simp add: url_encode_concat)

text \<open>
  C3. The output of \<open>url_encode\<close> is the concatenation, character by character,
  of the character itself when it is an ASCII letter, an ASCII digit or one of
  \<open>- _ . ~\<close>, and of \<open>%\<close> with the two upper-case hexadecimal digits of its byte
  otherwise. A character passes through unchanged if and only if it is in that
  set, and is replaced if and only if it is not. The example of the spec is as
  it says.
\<close>

theorem url_encode_by_character:
  "url_encode str = concat (map (\<lambda>c. if unreserved c then [c] else percent c) str)
   \<and> (url_encode [c] = [c]) = unreserved c
   \<and> (url_encode [c] = percent c) = (\<not> unreserved c)
   \<and> url_encode ''a+b/c='' = ''a%2Bb%2Fc%3D''"
proof -
  have 1: "url_encode str = concat (map (\<lambda>c. if unreserved c then [c] else percent c) str)"
    by (simp add: url_encode_concat url_encode_char_fun)
  have 2: "percent c \<noteq> [c]" by (simp add: percent_def)
  have 3: "url_encode ''a+b/c='' = ''a%2Bb%2Fc%3D''" by code_simp
  show ?thesis using 1 2 3 by (auto simp: url_encode_Cons url_encode_Nil)
qed

theorem url_encode_by_character_witness:
  "url_encode ''a b~'' = ''a%20b~''"
proof -
  have "unreserved (CHR ''a'')" "\<not> unreserved (CHR '' '')" "unreserved (CHR ''b'')" "unreserved (CHR ''~'')"
    by (simp_all add: unreserved_def)
  then show ?thesis
    using url_encode_by_character [of "''a b~''" "CHR ''a''"]
    by (simp add: percent_def uchar_def)
qed

lemma percent_not_unreserved: "unreserved c \<Longrightarrow> c \<noteq> CHR ''%''"
  by (auto simp: unreserved_def)

lemma hex_inj:
  "i < 16 \<Longrightarrow> j < 16 \<Longrightarrow> ''0123456789ABCDEF'' ! i = ''0123456789ABCDEF'' ! j \<Longrightarrow> i = j"
  using nth_eq_iff_index_eq [of "''0123456789ABCDEF''" i j] by simp

lemma percent_inj: "percent c = percent d \<Longrightarrow> c = d"
proof -
  assume a: "percent c = percent d"
  have b: "uchar c < 256" "uchar d < 256" by (simp_all add: uchar_def)
  then have l: "uchar c div 16 < 16" "uchar d div 16 < 16" "uchar c mod 16 < 16" "uchar d mod 16 < 16"
    by simp_all
  from a have "''0123456789ABCDEF'' ! (uchar c div 16) = ''0123456789ABCDEF'' ! (uchar d div 16)"
    "''0123456789ABCDEF'' ! (uchar c mod 16) = ''0123456789ABCDEF'' ! (uchar d mod 16)"
    by (simp_all add: percent_def)
  then have "uchar c div 16 = uchar d div 16" "uchar c mod 16 = uchar d mod 16"
    using l hex_inj by blast+
  then have "uchar c = uchar d" by (metis div_mult_mod_eq)
  then show "c = d" by (simp add: uchar_def)
qed

lemma encoded_char_inj:
  assumes "(if unreserved c then [c] else percent c) @ r = (if unreserved d then [d] else percent d) @ s"
  shows "c = d \<and> r = s"
proof (cases "unreserved c"; cases "unreserved d")
  assume "unreserved c" "unreserved d"
  with assms show ?thesis by simp
next
  assume "unreserved c" "\<not> unreserved d"
  with assms percent_not_unreserved [of c] show ?thesis by (simp add: percent_def)
next
  assume "\<not> unreserved c" "unreserved d"
  with assms percent_not_unreserved [of d] show ?thesis by (auto simp add: percent_def)
next
  assume u: "\<not> unreserved c" "\<not> unreserved d"
  with assms have "percent c @ r = percent d @ s" by simp
  moreover have "length (percent c) = length (percent d)" by (simp add: percent_def)
  ultimately have "percent c = percent d" "r = s" by simp_all
  then show ?thesis using percent_inj by blast
qed

lemma url_encode_inj: "url_encode x = url_encode y \<Longrightarrow> x = y"
proof (induction x arbitrary: y)
  case Nil
  then show ?case
    by (cases y) (auto simp: url_encode_Nil url_encode_Cons percent_def split: if_splits)
next
  case (Cons c x)
  show ?case
  proof (cases y)
    case Nil
    with Cons.prems show ?thesis
      by (auto simp: url_encode_Nil url_encode_Cons percent_def split: if_splits)
  next
    case (Cons d y')
    with Cons.prems have "c = d \<and> url_encode x = url_encode y'"
      using encoded_char_inj [of c "url_encode x" d "url_encode y'"] by (simp only: url_encode_Cons)
    with Cons.IH Cons show ?thesis by simp
  qed
qed

text \<open>
  C10. \<open>url_encode\<close> is injective on all byte strings, bytes above 127 included:
  two inputs have the same output if and only if they are equal. \<open>%\<close> is not in
  the pass-through set.
\<close>

theorem url_encode_injective:
  "(url_encode x = url_encode y) = (x = y) \<and> \<not> unreserved (CHR ''%'')"
  using url_encode_inj [of x y] by (auto simp: unreserved_def)

theorem url_encode_injective_witness:
  "url_encode ''%41'' \<noteq> url_encode ''A'' \<and> url_encode [CHR 0xE9] \<noteq> url_encode ''%E9''"
  using url_encode_injective [of "''%41''" "''A''"] url_encode_injective [of "[CHR 0xE9]" "''%E9''"]
  by simp


section \<open>Claims about compression and the shareable URL\<close>

subsection \<open>The copying engine\<close>

lemma map_prefix_nth:
  "n \<le> length xs \<Longrightarrow> map (\<lambda>k. if k < n then xs ! k else d) [0..<n] = take n xs"
  by (rule nth_equalityI) simp_all

lemma copy_init:
  "deflate_init copy_zlib =
     (Z_OK, \<lparr>next_in = [], avail_in = 0, next_out = 0, avail_out = 0, total_out = 0,
             state = Some ()\<rparr>)"
  by (simp add: deflate_init_def copy_zlib_def)

lemma copy_deflate_small:
  assumes "length data \<le> 32768"
  shows "deflate_loop copy_zlib
           \<lparr>next_in = data, avail_in = of_nat (length data), next_out = p, avail_out = q,
            total_out = 0, state = st\<rparr> []
         = Some (Z_STREAM_END,
             \<lparr>next_in = [], avail_in = 0, next_out = length data,
              avail_out = 32768 - of_nat (length data), total_out = length data, state = st\<rparr>,
             data)"
proof -
  have u: "unat (of_nat (length data) :: 32 word) = length data"
    using assms by (simp add: unat_of_nat)
  have m: "min (length data) 32768 = length data" using assms by simp
  have d: "deflate copy_zlib = copy_deflate" by (simp add: copy_zlib_def)
  show ?thesis
    by (subst deflate_loop.simps)
       (simp add: d copy_deflate_def u m Let_def Z_STREAM_END_def Z_OK_def
          map_prefix_nth [of "length data" data, simplified] cong: if_cong)
qed

lemma compress_copy:
  assumes "length data \<le> 32768"
  shows "compress_data copy_zlib data = Some (Inr data)"
proof -
  have e: "deflateEnd copy_zlib zs = (Z_OK, zs\<lparr>state := None\<rparr>)" for zs
    by (simp add: copy_zlib_def)
  show ?thesis
    unfolding compress_data_def copy_init deflate_all_def
    by (simp add: copy_deflate_small [OF assms] e)
qed

subsection \<open>The URL\<close>

text \<open>
  C1. Whenever both compressions succeed, \<open>create_shareable_url\<close> returns the
  base URL, \<open>?e=\<close>, the expression between two double quotes after compression,
  Base64 encoding and percent-encoding, \<open>&s=\<close>, and the sizes between brackets
  after the same three stages. The expression reaches the compressor as it is:
  no quote or backslash in it is escaped.
\<close>

theorem shareable_url_pipeline:
  assumes "compress_data Z ([CHR 0x22] @ e @ [CHR 0x22]) = Some (Inr compressed_e)"
    and "compress_data Z (''['' @ s @ '']'') = Some (Inr compressed_s)"
  shows "create_shareable_url Z e s =
           Some (Inr (''https://seriousseal.github.io/tensor_expressions_webapp/'' @ ''?e=''
                        @ url_encode (base64_encode compressed_e)
                        @ ''&s='' @ url_encode (base64_encode compressed_s)))"
  using assms by (simp add: create_shareable_url_def)

theorem shareable_url_pipeline_witness:
  "compress_data copy_zlib ([CHR 0x22] @ [CHR ''a'', CHR 0x22, CHR 0x5C] @ [CHR 0x22])
     = Some (Inr [CHR 0x22, CHR ''a'', CHR 0x22, CHR 0x5C, CHR 0x22])
   \<and> compress_data copy_zlib (''['' @ ''2, 3'' @ '']'') = Some (Inr ''[2, 3]'')
   \<and> create_shareable_url copy_zlib [CHR ''a'', CHR 0x22, CHR 0x5C] ''2, 3'' =
       Some (Inr ''https://seriousseal.github.io/tensor_expressions_webapp/?e=ImEiXCI%3D&s=WzIsIDNd'')"
proof -
  have 1: "compress_data copy_zlib ([CHR 0x22] @ [CHR ''a'', CHR 0x22, CHR 0x5C] @ [CHR 0x22])
     = Some (Inr [CHR 0x22, CHR ''a'', CHR 0x22, CHR 0x5C, CHR 0x22])"
    using compress_copy [of "[CHR 0x22, CHR ''a'', CHR 0x22, CHR 0x5C, CHR 0x22]"] by simp
  have 2: "compress_data copy_zlib (''['' @ ''2, 3'' @ '']'') = Some (Inr ''[2, 3]'')"
    using compress_copy [of "''[2, 3]''"] by simp
  have 3: "url_encode (base64_encode [CHR 0x22, CHR ''a'', CHR 0x22, CHR 0x5C, CHR 0x22]) = ''ImEiXCI%3D''"
    by code_simp
  have 4: "url_encode (base64_encode ''[2, 3]'') = ''WzIsIDNd''"
    by code_simp
  show ?thesis
    using shareable_url_pipeline [OF 1 2] 1 2 by (simp add: 3 4)
qed


subsection \<open>The deflate loop\<close>

lemma emitted_conv:
  "emitted (ret, zs, outbuffer) = map outbuffer [0..<32768 - unat (avail_out zs)]"
  by (simp add: emitted_def)

lemma deflate_loop_calls:
  "deflate_loop Z zs compressed = Some r \<Longrightarrow> zlib_accounting Z \<Longrightarrow>
   length compressed = total_out zs \<Longrightarrow>
     \<exists>calls. deflate_calls Z zs = Some calls \<and> calls \<noteq> []
       \<and> fst (last calls) = fst r \<and> fst (snd (last calls)) = fst (snd r)
       \<and> snd (snd r) = compressed @ concat (map emitted calls)
       \<and> (fst r = Z_STREAM_END \<longrightarrow> avail_in (fst (snd r)) = 0)"
proof (induction rule: deflate_loop.raw_induct [rotated 1, consumes 1, case_names step])
  case (step f Z zs compressed r)
  note acc = \<open>zlib_accounting Z\<close> and len = \<open>length compressed = total_out zs\<close>
  obtain ret zs2 ob where d: "deflate Z (zs\<lparr>next_out := 0, avail_out := 32768\<rparr>) Z_FINISH = (ret, zs2, ob)"
    by (cases "deflate Z (zs\<lparr>next_out := 0, avail_out := 32768\<rparr>) Z_FINISH") auto
  from acc d have a: "unat (avail_out zs2) \<le> 32768"
    "total_out zs2 = total_out zs + (32768 - unat (avail_out zs2))"
    "ret = Z_STREAM_END \<longrightarrow> avail_in zs2 = 0"
    unfolding zlib_accounting_def
    by (auto dest!: spec [of _ "zs\<lparr>next_out := 0, avail_out := 32768\<rparr>"] spec [of _ Z_FINISH])
  define compressed2 where "compressed2 = compressed @ emitted (ret, zs2, ob)"
  have k: "total_out zs2 - length compressed = 32768 - unat (avail_out zs2)"
    using a(1,2) len by simp
  have lt: "\<not> length compressed < total_out zs2 \<Longrightarrow> 32768 - unat (avail_out zs2) = 0"
    using a(1,2) len by simp
  have c2: "(if length compressed < total_out zs2
             then compressed @ map ob [0..<total_out zs2 - length compressed]
             else compressed) = compressed2"
    using lt by (simp add: compressed2_def emitted_conv k)
  have l2: "length compressed2 = total_out zs2"
    using a(1,2) len by (simp add: compressed2_def emitted_conv)
  show ?case
  proof (cases "ret = Z_OK")
    case True
    with step.hyps d c2 have "f Z zs2 compressed2 = Some r" by (simp add: Let_def)
    from step.IH [OF this acc l2] obtain calls where
      "deflate_calls Z zs2 = Some calls" "calls \<noteq> []"
      "fst (last calls) = fst r" "fst (snd (last calls)) = fst (snd r)"
      "snd (snd r) = compressed2 @ concat (map emitted calls)"
      "fst r = Z_STREAM_END \<longrightarrow> avail_in (fst (snd r)) = 0"
      by blast
    then show ?thesis
      using True d by (subst deflate_calls.simps) (simp add: compressed2_def)
  next
    case False
    with step.hyps d c2 have "r = (ret, zs2, compressed2)" by (simp add: Let_def)
    then show ?thesis
      using False d a by (subst deflate_calls.simps) (simp add: compressed2_def)
  qed
qed


lemma deflate_loop_input:
  "deflate_loop Z zs compressed = Some r \<Longrightarrow> zlib_accounting Z \<Longrightarrow>
   next_in zs = drop k data \<Longrightarrow> k + unat (avail_in zs) = n \<Longrightarrow>
     \<exists>k'. next_in (fst (snd r)) = drop k' data \<and> k' + unat (avail_in (fst (snd r))) = n"
proof (induction arbitrary: k rule: deflate_loop.raw_induct [rotated 1, consumes 1, case_names step])
  case (step f Z zs compressed r)
  note acc = \<open>zlib_accounting Z\<close>
  obtain ret zs2 ob where d: "deflate Z (zs\<lparr>next_out := 0, avail_out := 32768\<rparr>) Z_FINISH = (ret, zs2, ob)"
    by (cases "deflate Z (zs\<lparr>next_out := 0, avail_out := 32768\<rparr>) Z_FINISH") auto
  from acc d have a: "unat (avail_in zs2) \<le> unat (avail_in zs)"
    "next_in zs2 = drop (unat (avail_in zs) - unat (avail_in zs2)) (next_in zs)"
    unfolding zlib_accounting_def
    by (auto dest!: spec [of _ "zs\<lparr>next_out := 0, avail_out := 32768\<rparr>"] spec [of _ Z_FINISH])
  define k2 where "k2 = k + (unat (avail_in zs) - unat (avail_in zs2))"
  have n2: "next_in zs2 = drop k2 data"
    using a(2) step.prems(2) by (simp add: k2_def add.commute)
  have s2: "k2 + unat (avail_in zs2) = n"
    using a(1) step.prems(3) by (simp add: k2_def)
  show ?case
  proof (cases "ret = Z_OK")
    case True
    with step.hyps d have "\<exists>c. f Z zs2 c = Some r" by (auto simp: Let_def)
    then obtain c where "f Z zs2 c = Some r" ..
    from step.IH [OF this acc n2 s2] show ?thesis .
  next
    case False
    with step.hyps d have "fst (snd r) = zs2" by (auto simp: Let_def)
    with n2 s2 show ?thesis by blast
  qed
qed

lemma compress_data_cases:
  "compress_data Z data =
     (if fst (deflate_init Z) \<noteq> Z_OK then Some (Inl (runtime_error ''deflateInit failed''))
      else case deflate_all Z (snd (deflate_init Z)) data of
             None \<Rightarrow> None
           | Some (ret, zs, compressed) \<Rightarrow>
               if ret \<noteq> Z_STREAM_END then Some (Inl (runtime_error ''compression failed''))
               else Some (Inr compressed))"
  by (simp add: compress_data_def split: prod.splits option.splits)

lemma unat_sub_min:
  fixes a b :: "32 word"
  shows "unat (b - of_nat (min (unat a) (unat b))) = unat b - min (unat a) (unat b)"
    and "unat (a - of_nat (min (unat a) (unat b))) = unat a - min (unat a) (unat b)"
proof -
  let ?n = "min (unat a) (unat b)"
  have u: "unat (of_nat ?n :: 32 word) = ?n"
    by (rule le_unat_uoi [of _ b]) simp
  then have "(of_nat ?n :: 32 word) \<le> b" "(of_nat ?n :: 32 word) \<le> a"
    by (simp_all add: word_le_nat_alt)
  then show "unat (b - of_nat ?n) = unat b - ?n" "unat (a - of_nat ?n) = unat a - ?n"
    by (simp_all only: unat_sub u)
qed

lemma copy_accounting: "zlib_accounting copy_zlib"
proof -
  have d: "deflate copy_zlib = copy_deflate" by (simp add: copy_zlib_def)
  have z: "avail_in zs - of_nat (unat (avail_in zs)) = 0" for zs :: "unit z_stream"
    by simp
  show ?thesis
    unfolding zlib_accounting_def copy_init d copy_deflate_def
    by (auto simp: Let_def Z_OK_def Z_STREAM_END_def unat_sub_min z)
qed

text \<open>
  C6, as stated: on every successful return all input bytes have been consumed.
  This fails on \<open>2 ^ 32\<close> bytes of input: line 68 stores the size in the 32-bit
  \<^verbatim>\<open>avail_in\<close>, the engine is handed a count of zero, and with the copying
  engine the call succeeds with the end-of-stream marker reached while all
  \<open>2 ^ 32\<close> bytes still stand at \<open>next_in\<close>.
\<close>

theorem compress_data_input_counterexample:
  "compress_data copy_zlib (replicate (2 ^ 32) (CHR ''A'')) = Some (Inr [])
   \<and> deflate_all copy_zlib (snd (deflate_init copy_zlib)) (replicate (2 ^ 32) (CHR ''A''))
       = Some (Z_STREAM_END,
           \<lparr>next_in = replicate (2 ^ 32) (CHR ''A''), avail_in = 0, next_out = 0,
            avail_out = 32768, total_out = 0, state = Some ()\<rparr>,
           [])
   \<and> replicate (2 ^ 32) (CHR ''A'') \<noteq> []"
proof -
  define data where "data = replicate (2 ^ 32) (CHR ''A'')"
  have n: "(of_nat (length data) :: 32 word) = 0" "data \<noteq> []"
    by (simp_all add: data_def)
  have d: "deflate copy_zlib = copy_deflate" by (simp add: copy_zlib_def)
  have l: "deflate_all copy_zlib (snd (deflate_init copy_zlib)) data
       = Some (Z_STREAM_END,
           \<lparr>next_in = data, avail_in = 0, next_out = 0,
            avail_out = 32768, total_out = 0, state = Some ()\<rparr>,
           [])"
    unfolding deflate_all_def copy_init
    by (subst deflate_loop.simps)
       (simp add: d copy_deflate_def Let_def Z_STREAM_END_def Z_OK_def n)
  have i: "fst (deflate_init copy_zlib) = Z_OK" by (simp add: copy_init)
  have c: "compress_data copy_zlib data = Some (Inr [])"
    by (simp add: compress_data_cases i l)
  show ?thesis using l c n(2) unfolding data_def by blast
qed

text \<open>
  C6, amended. \<open>compress_data\<close> throws exactly when the engine fails to
  initialise (the error of line 64) or the loop ends with a return code other
  than \<^verbatim>\<open>Z_STREAM_END\<close> (the error of line 91). On every successful return the
  loop has ended with \<^verbatim>\<open>Z_STREAM_END\<close>, the returned value is the concatenation
  of the bytes that the calls of \<^verbatim>\<open>deflate\<close> have emitted, in order, the count
  \<^verbatim>\<open>avail_in\<close> has reached zero, and the engine has consumed the first
  \<open>length data mod 2 ^ 32\<close> bytes of the input: all of it when the input has fewer
  than \<open>2 ^ 32\<close> bytes. What is said of a successful return rests on what zlib
  documents about \<^verbatim>\<open>total_out\<close>, \<^verbatim>\<open>avail_out\<close>, \<^verbatim>\<open>avail_in\<close>, \<^verbatim>\<open>next_in\<close> and
  \<^verbatim>\<open>Z_STREAM_END\<close>.
\<close>

theorem compress_data_outcomes:
  assumes "zlib_accounting Z"
  shows "(compress_data Z data = Some (Inl (runtime_error ''deflateInit failed''))
            \<longleftrightarrow> fst (deflate_init Z) \<noteq> Z_OK)
       \<and> (compress_data Z data = Some (Inl (runtime_error ''compression failed''))
            \<longleftrightarrow> fst (deflate_init Z) = Z_OK
                \<and> (\<exists>ret zs out. deflate_all Z (snd (deflate_init Z)) data = Some (ret, zs, out)
                       \<and> ret \<noteq> Z_STREAM_END))
       \<and> ((\<exists>e. compress_data Z data = Some (Inl e))
            \<longleftrightarrow> fst (deflate_init Z) \<noteq> Z_OK
                \<or> (\<exists>ret zs out. deflate_all Z (snd (deflate_init Z)) data = Some (ret, zs, out)
                       \<and> ret \<noteq> Z_STREAM_END))
       \<and> (compress_data Z data = Some (Inr compressed) \<longrightarrow>
            (\<exists>calls.
               deflate_calls Z
                 ((snd (deflate_init Z))\<lparr>next_in := data, avail_in := of_nat (length data)\<rparr>)
                 = Some calls
               \<and> calls \<noteq> [] \<and> fst (last calls) = Z_STREAM_END
               \<and> avail_in (fst (snd (last calls))) = 0
               \<and> next_in (fst (snd (last calls))) = drop (length data mod 2 ^ 32) data
               \<and> (length data < 2 ^ 32 \<longrightarrow> next_in (fst (snd (last calls))) = [])
               \<and> compressed = concat (map emitted calls)))"
proof (intro conjI impI)
  show "compress_data Z data = Some (Inl (runtime_error ''deflateInit failed''))
          \<longleftrightarrow> fst (deflate_init Z) \<noteq> Z_OK"
    by (auto simp: compress_data_cases split: option.splits)
  show "compress_data Z data = Some (Inl (runtime_error ''compression failed''))
          \<longleftrightarrow> fst (deflate_init Z) = Z_OK
              \<and> (\<exists>ret zs out. deflate_all Z (snd (deflate_init Z)) data = Some (ret, zs, out)
                     \<and> ret \<noteq> Z_STREAM_END)"
    by (auto simp: compress_data_cases split: option.splits)
  show "(\<exists>e. compress_data Z data = Some (Inl e))
          \<longleftrightarrow> fst (deflate_init Z) \<noteq> Z_OK
              \<or> (\<exists>ret zs out. deflate_all Z (snd (deflate_init Z)) data = Some (ret, zs, out)
                     \<and> ret \<noteq> Z_STREAM_END)"
    by (auto simp: compress_data_cases split: option.splits)
next
  assume c: "compress_data Z data = Some (Inr compressed)"
  let ?zs = "(snd (deflate_init Z))\<lparr>next_in := data, avail_in := of_nat (length data)\<rparr>"
  from c have ok: "fst (deflate_init Z) = Z_OK"
    by (auto simp: compress_data_cases split: if_splits)
  with c obtain zs where l: "deflate_loop Z ?zs [] = Some (Z_STREAM_END, zs, compressed)"
    by (auto simp: compress_data_cases deflate_all_def split: option.splits if_splits)
  from assms ok have "total_out ?zs = 0" by (simp add: zlib_accounting_def)
  then have "length ([] :: string) = total_out ?zs" by simp
  from deflate_loop_calls [OF l assms this]
  obtain calls where calls: "deflate_calls Z ?zs = Some calls" "calls \<noteq> []"
    "fst (last calls) = Z_STREAM_END" "fst (snd (last calls)) = zs"
    "compressed = concat (map emitted calls)" "avail_in zs = 0"
    by auto
  have "next_in ?zs = drop 0 data" by simp
  moreover have "0 + unat (avail_in ?zs) = length data mod 2 ^ 32"
    by (simp add: unat_of_nat)
  ultimately obtain k where "next_in zs = drop k data"
    "k + unat (avail_in zs) = length data mod 2 ^ 32"
    using deflate_loop_input [OF l assms] by fastforce
  with calls(6) have n: "next_in zs = drop (length data mod 2 ^ 32) data" by simp
  then have "length data < 2 ^ 32 \<longrightarrow> next_in zs = []" by simp
  with n calls
  show "\<exists>calls. deflate_calls Z ?zs = Some calls
          \<and> calls \<noteq> [] \<and> fst (last calls) = Z_STREAM_END
          \<and> avail_in (fst (snd (last calls))) = 0
          \<and> next_in (fst (snd (last calls))) = drop (length data mod 2 ^ 32) data
          \<and> (length data < 2 ^ 32 \<longrightarrow> next_in (fst (snd (last calls))) = [])
          \<and> compressed = concat (map emitted calls)"
    by auto
qed

theorem compress_data_outcomes_witness:
  "zlib_accounting copy_zlib
   \<and> compress_data copy_zlib ''abc'' = Some (Inr ''abc'')
   \<and> length ''abc'' < (2::nat) ^ 32
   \<and> (\<exists>calls.
         deflate_calls copy_zlib
           ((snd (deflate_init copy_zlib))\<lparr>next_in := ''abc'', avail_in := of_nat (length ''abc'')\<rparr>)
           = Some calls
         \<and> calls \<noteq> [] \<and> fst (last calls) = Z_STREAM_END
         \<and> avail_in (fst (snd (last calls))) = 0
         \<and> next_in (fst (snd (last calls))) = []
         \<and> ''abc'' = concat (map emitted calls))"
proof -
  have c: "compress_data copy_zlib ''abc'' = Some (Inr ''abc'')"
    by (rule compress_copy) simp
  have l: "length ''abc'' < (2::nat) ^ 32" by simp
  show ?thesis
    using compress_data_outcomes [OF copy_accounting, of "''abc''" "''abc''"] c l copy_accounting
    by blast
qed

subsection \<open>No partial result\<close>

lemma deflate_loop_returns:
  assumes "deflate_progress Z m"
  shows "\<exists>r. deflate_loop Z zs compressed = Some r"
proof (induction "m zs" arbitrary: zs compressed rule: less_induct)
  case less
  obtain ret zs2 ob where d: "deflate Z (zs\<lparr>next_out := 0, avail_out := 32768\<rparr>) Z_FINISH = (ret, zs2, ob)"
    by (cases "deflate Z (zs\<lparr>next_out := 0, avail_out := 32768\<rparr>) Z_FINISH") auto
  show ?case
  proof (cases "ret = Z_OK")
    case True
    with assms d have "m zs2 < m zs"
      unfolding deflate_progress_def by (auto dest!: spec [of _ zs])
    from less [OF this] show ?thesis
      using True d by (subst deflate_loop.simps) (simp add: Let_def)
  next
    case False
    then show ?thesis
      using d by (subst deflate_loop.simps) (simp add: Let_def)
  qed
qed

lemma compress_data_returns:
  assumes "deflate_progress Z m"
  shows "(\<exists>e. compress_data Z data = Some (Inl e)) \<or> (\<exists>c. compress_data Z data = Some (Inr c))"
proof -
  obtain ret zs c where "deflate_all Z (snd (deflate_init Z)) data = Some (ret, zs, c)"
    using deflate_loop_returns [OF assms] unfolding deflate_all_def by (metis prod_cases3)
  then show ?thesis by (simp add: compress_data_cases)
qed

lemma copy_progress: "deflate_progress copy_zlib (\<lambda>zs. unat (avail_in zs))"
proof -
  have d: "deflate copy_zlib = copy_deflate" by (simp add: copy_zlib_def)
  have "unat (a - 32768) < unat a" if "\<not> unat a \<le> 32768" for a :: "32 word"
  proof -
    from that have "(32768 :: 32 word) \<le> a" by (simp add: word_le_nat_alt)
    then have "unat (a - 32768) = unat a - 32768" by (simp add: unat_sub)
    with that show ?thesis by simp
  qed
  then show ?thesis
    unfolding deflate_progress_def d copy_deflate_def
    by (auto simp: Let_def Z_OK_def Z_STREAM_END_def min_def split: if_splits)
qed

text \<open>
  C7. For every pair of inputs, and every engine that makes progress,
  \<open>create_shareable_url\<close> returns: either both compressions succeed and the
  result is the complete URL, or the result is an error, and that error is the
  one that one of the two calls of \<open>compress_data\<close> has thrown.
\<close>

theorem shareable_url_total:
  assumes "deflate_progress Z m"
  shows "(\<exists>compressed_e compressed_s.
            compress_data Z ([CHR 0x22] @ e @ [CHR 0x22]) = Some (Inr compressed_e)
            \<and> compress_data Z (''['' @ s @ '']'') = Some (Inr compressed_s)
            \<and> create_shareable_url Z e s =
                Some (Inr (''https://seriousseal.github.io/tensor_expressions_webapp/?e=''
                            @ url_encode (base64_encode compressed_e)
                            @ ''&s='' @ url_encode (base64_encode compressed_s))))
         \<or> (\<exists>err. create_shareable_url Z e s = Some (Inl err)
                \<and> (compress_data Z ([CHR 0x22] @ e @ [CHR 0x22]) = Some (Inl err)
                     \<or> compress_data Z (''['' @ s @ '']'') = Some (Inl err)))"
  using compress_data_returns [OF assms, of "[CHR 0x22] @ e @ [CHR 0x22]"]
    compress_data_returns [OF assms, of "''['' @ s @ '']''"]
  by (auto simp: create_shareable_url_def)

theorem shareable_url_total_witness:
  "deflate_progress copy_zlib (\<lambda>zs. unat (avail_in zs))
   \<and> create_shareable_url copy_zlib ''a->a'' ''2'' =
       Some (Inr ''https://seriousseal.github.io/tensor_expressions_webapp/?e=ImEtPmEi&s=WzJd'')"
proof -
  have 1: "compress_data copy_zlib ([CHR 0x22] @ ''a->a'' @ [CHR 0x22])
     = Some (Inr ([CHR 0x22] @ ''a->a'' @ [CHR 0x22]))"
    by (rule compress_copy) simp
  have 2: "compress_data copy_zlib (''['' @ ''2'' @ '']'') = Some (Inr ''[2]'')"
    using compress_copy [of "''[2]''"] by simp
  have 3: "url_encode (base64_encode [CHR 0x22, CHR ''a'', CHR ''-'', CHR ''>'', CHR ''a'', CHR 0x22])
             = ''ImEtPmEi''"
    by code_simp
  have 4: "url_encode (base64_encode ''[2]'') = ''WzJd''"
    by code_simp
  show ?thesis
    using shareable_url_total [OF copy_progress, of "''a->a''" "''2''"] copy_progress 1 2
    by (auto simp: 3 4)
qed


section \<open>Totality and the empty input\<close>

lemma set_quad:
  assumes "a < 256" "b < 256" "c < 256"
  shows "set (quad a b c) \<subseteq> set base64_chars"
proof -
  have "a div 4 < 64" "c mod 64 < 64" using assms by simp_all
  then show ?thesis
    using sextet1_less [OF assms(2), of a] sextet2_less [OF assms(3), of b]
    by (simp add: quad_def nth_alphabet)
qed

lemma set_base64_spec:
  "\<forall>x \<in> set xs. x < 256 \<Longrightarrow> set (base64_spec xs) \<subseteq> set base64_chars \<union> {CHR ''=''}"
proof (induction xs rule: base64_spec.induct)
  case (1 a b c rest)
  then show ?case using set_quad [of a b c] by auto
next
  case (2 a b)
  then show ?case
    using set_quad [of a b 0] set_take_subset [of 3 "quad a b 0"] by auto
next
  case (3 a)
  then show ?case
    using set_quad [of a 0 0] set_take_subset [of 2 "quad a 0 0"] by auto
next
  case 4
  then show ?case by simp
qed

lemma set_base64_encode: "set (base64_encode input) \<subseteq> set base64_chars \<union> {CHR ''=''}"
  unfolding base64_encode_spec by (rule set_base64_spec) (simp add: uchar_def)

lemma set_percent: "set (percent c) \<subseteq> {c. unreserved c} \<union> {CHR ''%''}"
proof -
  have "uchar c < 256" by (simp add: uchar_def)
  then have l: "uchar c div 16 < length ''0123456789ABCDEF''" "uchar c mod 16 < length ''0123456789ABCDEF''"
    by simp_all
  have "set ''0123456789ABCDEF'' \<subseteq> {c. unreserved c}"
    by (simp add: unreserved_def)
  with nth_mem [OF l(1)] nth_mem [OF l(2)] show ?thesis
    unfolding percent_def by (simp only: list.set) blast
qed

lemma set_url_encode: "set (url_encode str) \<subseteq> {c. unreserved c} \<union> {CHR ''%''}"
proof (induction str)
  case Nil
  then show ?case by (simp add: url_encode_Nil)
next
  case (Cons c str)
  then show ?case using set_percent [of c] by (auto simp: url_encode_Cons)
qed

text \<open>
  C8. \<open>base64_encode\<close> and \<open>url_encode\<close> are total: both are functions of HOL,
  the loop of \<open>base64_encode\<close> has been shown to terminate for every value of
  its 32-bit counter, and for every input every character of the output is one
  that the tables hold (a character of the alphabet or \<open>=\<close>; a pass-through
  character or \<open>%\<close>). Both map the empty input to the empty output, and the
  output of \<open>base64_encode\<close> for the empty input holds no padding character.
\<close>

theorem empty_input_empty_output:
  "base64_encode [] = [] \<and> url_encode [] = [] \<and> CHR ''='' \<notin> set (base64_encode [])
   \<and> set (base64_encode input) \<subseteq> set base64_chars \<union> {CHR ''=''}
   \<and> set (url_encode str) \<subseteq> {c. unreserved c} \<union> {CHR ''%''}"
  using set_base64_encode [of input] set_url_encode [of str]
  by (simp add: base64_encode_def base64_while.simps url_encode_def)

end
